theory Spec2Isabelle
  imports Main
begin

section \<open>GitlabApi: the request executor and the status validator\<close>

text \<open>
  The part of \<^verbatim>\<open>GitlabApi.ts\<close> that carries control flow: \<^verbatim>\<open>sendRawRequest\<close> (the retry
  loop), \<^verbatim>\<open>validateResponseStatus\<close>, and the two wrappers that decode the body and check
  its shape. The URL and the options are built once, before the loop, and never change
  inside it, so the loop is a function of what \<^verbatim>\<open>fetch\<close> does at each attempt.
\<close>

subsection \<open>Values\<close>

text \<open>What \<^verbatim>\<open>JSON.parse\<close> can produce. The numeric payload plays no role in the shape checks.\<close>

datatype json =
    JNull
  | JBool bool
  | JNumber int
  | JString string
  | JArray "json list"
  | JObject "(string \<times> json) list"

text \<open>
  A \<^verbatim>\<open>Response\<close> of node-fetch: its status and what \<^verbatim>\<open>response.json()\<close> resolves to
  (\<open>None\<close> when the body is not valid JSON and \<^verbatim>\<open>json()\<close> rejects).
\<close>

record response =
  status :: nat
  json_body :: "json option"

text \<open>The \<^verbatim>\<open>type\<close> field of a node-fetch \<^verbatim>\<open>FetchError\<close>.\<close>

datatype fetch_error_type = System | RequestTimeout | InvalidJson | OtherType string

text \<open>
  The messages of the \<^verbatim>\<open>Error\<close> objects the file creates; the template literals keep
  their interpolated values as arguments.
\<close>

datatype message =
    Unauthorized
  | Forbidden
  | UnexpectedStatusCode nat
  | UnexpectedStatusCodeAfterRetries nat nat
  | InvalidResponse

datatype js_error =
    FetchError fetch_error_type
  | Error message
  | TypeError
  | OtherThrown string

text \<open>One call of \<^verbatim>\<open>fetch\<close>: it resolves to a response or rejects.\<close>

datatype attempt = Responds response | Rejects js_error

text \<open>What the executor does to the outside world, in order.\<close>

datatype effect = Fetch | Sleep nat

subsection \<open>sendRawRequest\<close>

definition numberOfRequestRetries :: nat where
  "numberOfRequestRetries = 20"

definition sleepTimeout :: nat where
  "sleepTimeout = 10000"

text \<open>\<^verbatim>\<open>e instanceof FetchError && ['system', 'request-timeout'].includes(e.type)\<close>\<close>

fun transient :: "js_error \<Rightarrow> bool" where
  "transient (FetchError System) = True"
| "transient (FetchError RequestTimeout) = True"
| "transient _ = False"

text \<open>
  The loop of lines 229 to 260. \<open>net i\<close> is what the \<open>i\<close>-th call of \<^verbatim>\<open>fetch\<close> does
  (counted from 1, as \<^verbatim>\<open>retryCounter\<close> is). The \<^verbatim>\<open>throw\<close> of line 236 sits inside the
  \<^verbatim>\<open>try\<close>, so the error it creates goes through the \<^verbatim>\<open>catch\<close> clause like an error of
  \<^verbatim>\<open>fetch\<close>; both are the \<open>thrown\<close> of the model. The second component is the trace of
  effects so far.
\<close>

function send_loop ::
  "(nat \<Rightarrow> attempt) \<Rightarrow> nat \<Rightarrow> effect list \<Rightarrow> (js_error + response) \<times> effect list"
where
  "send_loop net counter tr =
     (let retryCounter = counter + 1;
          tr1 = tr @ [Fetch];
          thrown =
            (case net retryCounter of
               Rejects e \<Rightarrow> Some e
             | Responds r \<Rightarrow>
                 if status r \<ge> 500 \<and> retryCounter \<ge> numberOfRequestRetries
                 then Some (Error (UnexpectedStatusCodeAfterRetries (status r) numberOfRequestRetries))
                 else None)
      in case thrown of
           Some e \<Rightarrow>
             if retryCounter < numberOfRequestRetries \<and> transient e
             then send_loop net retryCounter (tr1 @ [Sleep sleepTimeout])
             else (Inl e, tr1)
         | None \<Rightarrow>
             (case net retryCounter of
                Responds r \<Rightarrow>
                  if status r \<ge> 500
                  then send_loop net retryCounter (tr1 @ [Sleep sleepTimeout])
                  else (Inr r, tr1)
              | Rejects e \<Rightarrow> (Inl e, tr1)))"
  by pat_completeness auto
termination
  by (relation "measure (\<lambda>(net, counter, tr). numberOfRequestRetries - counter)")
     (auto simp: numberOfRequestRetries_def split: attempt.splits if_splits)

definition sendRawRequest :: "(nat \<Rightarrow> attempt) \<Rightarrow> (js_error + response) \<times> effect list" where
  "sendRawRequest net = send_loop net 0 []"

subsection \<open>validateResponseStatus and the two wrappers\<close>

definition validateResponseStatus :: "response \<Rightarrow> js_error + unit" where
  "validateResponseStatus r =
     (if status r = 401 then Inl (Error Unauthorized)
      else if status r = 403 then Inl (Error Forbidden)
      else if status r < 200 \<or> status r \<ge> 300 then Inl (Error (UnexpectedStatusCode (status r)))
      else Inr ())"

text \<open>JavaScript's \<^verbatim>\<open>typeof\<close> on a decoded JSON value: \<^verbatim>\<open>typeof null\<close> is \<^verbatim>\<open>'object'\<close>, and so is an array's.\<close>

fun typeof :: "json \<Rightarrow> string" where
  "typeof JNull = ''object''"
| "typeof (JBool b) = ''boolean''"
| "typeof (JNumber n) = ''number''"
| "typeof (JString s) = ''string''"
| "typeof (JArray xs) = ''object''"
| "typeof (JObject fs) = ''object''"

text \<open>
  \<^verbatim>\<open>data.id\<close>: \<open>None\<close> is \<^verbatim>\<open>undefined\<close>. Reading a property of \<^verbatim>\<open>null\<close> throws a
  TypeError; a boolean, a number, a string and a parsed array have no \<^verbatim>\<open>id\<close>.
\<close>

fun get_id :: "json \<Rightarrow> js_error + json option" where
  "get_id JNull = Inl TypeError"
| "get_id (JObject fs) = Inr (map_of fs ''id'')"
| "get_id _ = Inr None"

fun isArray :: "json \<Rightarrow> bool" where
  "isArray (JArray xs) = True"
| "isArray _ = False"

text \<open>\<^verbatim>\<open>await response.json()\<close>\<close>

definition response_json :: "response \<Rightarrow> js_error + json" where
  "response_json r = (case json_body r of None \<Rightarrow> Inl (FetchError InvalidJson) | Some d \<Rightarrow> Inr d)"

text \<open>
  Lines 167 to 178. The condition is \<^verbatim>\<open>typeof data !== 'object' && data.id === undefined\<close>:
  \<^verbatim>\<open>data.id\<close> is read only when the first conjunct holds.
\<close>

definition sendRequestWithSingleResponse :: "(nat \<Rightarrow> attempt) \<Rightarrow> js_error + json" where
  "sendRequestWithSingleResponse net =
     (case fst (sendRawRequest net) of
        Inl e \<Rightarrow> Inl e
      | Inr r \<Rightarrow>
          (case validateResponseStatus r of
             Inl e \<Rightarrow> Inl e
           | Inr u \<Rightarrow>
               (case response_json r of
                  Inl e \<Rightarrow> Inl e
                | Inr d \<Rightarrow>
                    if typeof d \<noteq> ''object''
                    then (case get_id d of
                            Inl e \<Rightarrow> Inl e
                          | Inr i \<Rightarrow> if i = None then Inl (Error InvalidResponse) else Inr d)
                    else Inr d)))"

text \<open>Lines 180 to 191.\<close>

definition sendRequestWithMultiResponse :: "(nat \<Rightarrow> attempt) \<Rightarrow> js_error + json" where
  "sendRequestWithMultiResponse net =
     (case fst (sendRawRequest net) of
        Inl e \<Rightarrow> Inl e
      | Inr r \<Rightarrow>
          (case validateResponseStatus r of
             Inl e \<Rightarrow> Inl e
           | Inr u \<Rightarrow>
               (case response_json r of
                  Inl e \<Rightarrow> Inl e
                | Inr d \<Rightarrow> if \<not> isArray d then Inl (Error InvalidResponse) else Inr d)))"

subsection \<open>Vocabulary of the claims about the executor\<close>

text \<open>An attempt the loop answers with a retry: a transient network error or a status of 500 or more.\<close>

fun retried :: "attempt \<Rightarrow> bool" where
  "retried (Responds r) = (status r \<ge> 500)"
| "retried (Rejects e) = transient e"

text \<open>What the loop throws when such an attempt is the last one allowed.\<close>

fun final_error :: "attempt \<Rightarrow> js_error" where
  "final_error (Responds r) = Error (UnexpectedStatusCodeAfterRetries (status r) numberOfRequestRetries)"
| "final_error (Rejects e) = e"

text \<open>\<open>n\<close> attempts, each followed by the pause before the next one.\<close>

definition backoff :: "nat \<Rightarrow> effect list" where
  "backoff n = concat (replicate n [Fetch, Sleep sleepTimeout])"

section \<open>Queue: the key-coalescing job queue\<close>

text \<open>
  The class holds \<^verbatim>\<open>jobs\<close>, a plain object used as a dictionary from job id to job, and
  \<^verbatim>\<open>promise\<close>, which is defined while a drain loop is alive. JavaScript runs each piece
  of code between two suspension points to completion, so the class is modelled by its
  atomic segments: \<^verbatim>\<open>appendJob\<close> (which, on an idle queue, also runs the loop up to its
  first \<^verbatim>\<open>await\<close>), and the resumption of the loop when the awaited job settles.

  A job is opaque (a type variable). It is an async function: the call on line 29 returns
  a promise, and the body settles, by resolving or by rejecting, in a later segment; a
  body that never settles leaves the loop suspended for good. Calls of \<^verbatim>\<open>appendJob\<close>
  are inputs that arrive between segments. Two things are outside the model: a job that
  throws before returning its promise, and a job body that calls \<^verbatim>\<open>appendJob\<close> from
  its synchronous prefix while the first \<^verbatim>\<open>appendJob\<close> of a cycle is still on the stack
  (\<^verbatim>\<open>this.promise\<close> is not yet assigned then).
\<close>

subsection \<open>The dictionary object\<close>

text \<open>
  \<^verbatim>\<open>Object.keys\<close> lists the own properties of an ordinary object in this order: first
  the keys that are array indices (canonical decimal numerals below \<open>2^32 - 1\<close>), in
  ascending numeric order, then every other string key in the order of creation. The
  object is modelled by the list of its own properties in exactly that order.
\<close>

definition digit_value :: "char \<Rightarrow> nat option" where
  "digit_value c =
     (if 48 \<le> (of_char c :: nat) \<and> (of_char c :: nat) \<le> 57 then Some (of_char c - 48) else None)"

fun digits :: "string \<Rightarrow> nat list option" where
  "digits [] = Some []"
| "digits (c # cs) =
     (case digit_value c of
        None \<Rightarrow> None
      | Some d \<Rightarrow> (case digits cs of None \<Rightarrow> None | Some ds \<Rightarrow> Some (d # ds)))"

definition decimal :: "nat list \<Rightarrow> nat" where
  "decimal ds = foldl (\<lambda>n d. 10 * n + d) 0 ds"

definition array_index :: "string \<Rightarrow> nat option" where
  "array_index s =
     (case digits s of
        None \<Rightarrow> None
      | Some [] \<Rightarrow> None
      | Some (d # ds) \<Rightarrow>
          if d = 0 \<and> ds \<noteq> [] then None
          else if decimal (d # ds) \<ge> 4294967295 then None
          else Some (decimal (d # ds)))"

text \<open>Whether a new key \<open>k\<close> is listed before the existing key \<open>k'\<close>.\<close>

definition precedes :: "string \<Rightarrow> string \<Rightarrow> bool" where
  "precedes k k' =
     (case array_index k of
        None \<Rightarrow> False
      | Some i \<Rightarrow> (case array_index k' of None \<Rightarrow> True | Some i' \<Rightarrow> i < i'))"

fun insert_new :: "string \<Rightarrow> 'a \<Rightarrow> (string \<times> 'a) list \<Rightarrow> (string \<times> 'a) list" where
  "insert_new k v [] = [(k, v)]"
| "insert_new k v (p # ps) =
     (if precedes k (fst p) then (k, v) # p # ps else p # insert_new k v ps)"

text \<open>
  Giving the object the own property \<open>k\<close> with value \<open>v\<close>: an existing property keeps its
  place and takes the new value; a new one is created at its place in the order.
\<close>

definition put_own :: "string \<Rightarrow> 'a \<Rightarrow> (string \<times> 'a) list \<Rightarrow> (string \<times> 'a) list" where
  "put_own k v ps =
     (if k \<in> set (map fst ps) then map (\<lambda>p. if fst p = k then (k, v) else p) ps
      else insert_new k v ps)"

text \<open>\<^verbatim>\<open>delete this.jobs[jobId]\<close>\<close>

definition delete_prop :: "string \<Rightarrow> (string \<times> 'a) list \<Rightarrow> (string \<times> 'a) list" where
  "delete_prop k ps = filter (\<lambda>p. fst p \<noteq> k) ps"

subsection \<open>The queue and its segments\<close>

text \<open>The promise made by \<^verbatim>\<open>new Promise\<close> on line 17.\<close>

datatype promise_state = Pending | Fulfilled | Rejected js_error

text \<open>What an observer sees: a job body being called, and \<^verbatim>\<open>onEmptyQueue\<close> being called.\<close>

datatype 'j event = Started string 'j | Callback

text \<open>
  \<open>jobs\<close> is the list of the own properties of \<^verbatim>\<open>this.jobs\<close>; \<open>inherits_function\<close> says
  that the prototype of \<^verbatim>\<open>this.jobs\<close> is no longer \<^verbatim>\<open>Object.prototype\<close> but a job function
  (see \<open>set_prop\<close>); \<open>promise\<close> is \<^verbatim>\<open>this.promise !== undefined\<close>; \<open>awaiting\<close> is
  \<^verbatim>\<open>jobIds[0]\<close> of a loop suspended on line 29 (\<open>None\<close> when no loop is suspended); \<open>drain\<close>
  is the state of the promise the latest loop resolves or rejects.
\<close>

record 'j queue =
  jobs :: "(string \<times> 'j) list"
  inherits_function :: bool
  promise :: bool
  awaiting :: "string option"
  drain :: promise_state
  log :: "'j event list"

text \<open>\<^verbatim>\<open>new Queue(onEmptyQueue)\<close>\<close>

definition new_queue :: "'j queue" where
  "new_queue = \<lparr>jobs = [], inherits_function = False, promise = False, awaiting = None,
                 drain = Pending, log = []\<rparr>"

text \<open>
  \<^verbatim>\<open>this.jobs[jobId] = job\<close> on line 14, the store of an ordinary object, in the strict
  code of a class body.
  \<^item> The object is the literal \<^verbatim>\<open>{}\<close> and inherits the accessor \<^verbatim>\<open>__proto__\<close> of
    \<^verbatim>\<open>Object.prototype\<close>: a store under that name calls its setter, which makes the job
    function the prototype of the object and creates no own property.
  \<^item> A store under an own property changes its value.
  \<^item> Otherwise the prototype chain decides. Once a job function is the prototype, the
    object inherits from it the data properties \<^verbatim>\<open>length\<close> and \<^verbatim>\<open>name\<close>, which are not
    writable, and through it the accessors \<^verbatim>\<open>arguments\<close> and \<^verbatim>\<open>caller\<close> of
    \<^verbatim>\<open>Function.prototype\<close>, whose setter throws: a store under one of these four names
    throws a TypeError and creates nothing. Every other inherited property is writable
    and is shadowed by a new own property.
  A job is taken to be a plain function, with no own properties beyond those every
  function has.
\<close>

definition function_names :: "string list" where
  "function_names = [''length'', ''name'', ''arguments'', ''caller'']"

definition store_throws :: "string \<Rightarrow> 'j queue \<Rightarrow> bool" where
  "store_throws k q =
     (k \<noteq> ''__proto__'' \<and> k \<notin> set (map fst (jobs q))
      \<and> inherits_function q \<and> k \<in> set function_names)"

definition set_prop :: "string \<Rightarrow> 'j \<Rightarrow> 'j queue \<Rightarrow> js_error + 'j queue" where
  "set_prop k v q =
     (if k = ''__proto__'' then Inr (q\<lparr>inherits_function := True\<rparr>)
      else if store_throws k q then Inl TypeError
      else Inr (q\<lparr>jobs := put_own k v (jobs q)\<rparr>))"

text \<open>
  \<^verbatim>\<open>resolve()\<close> and \<^verbatim>\<open>reject(e)\<close> act on a pending promise only. The promise stored in
  \<^verbatim>\<open>this.promise\<close> is \<^verbatim>\<open>.then(this.onEmptyQueue)\<close> of it, so the callback runs when it is
  fulfilled and does not run when it is rejected.
\<close>

definition resolve :: "'j queue \<Rightarrow> 'j queue" where
  "resolve q = (if drain q = Pending then q\<lparr>drain := Fulfilled, log := log q @ [Callback]\<rparr> else q)"

definition reject :: "js_error \<Rightarrow> 'j queue \<Rightarrow> 'j queue" where
  "reject e q = (if drain q = Pending then q\<lparr>drain := Rejected e\<rparr> else q)"

text \<open>
  Lines 19 to 29: from the head of the \<^verbatim>\<open>while\<close> to the \<^verbatim>\<open>return\<close> or to the call of
  the job and the \<^verbatim>\<open>await\<close>. The head of the list is \<^verbatim>\<open>jobIds[0]\<close> with its job.
\<close>

definition loop_head :: "'j queue \<Rightarrow> 'j queue" where
  "loop_head q =
     (case jobs q of
        [] \<Rightarrow> resolve (q\<lparr>promise := False\<rparr>)
      | (k, j) # rest \<Rightarrow> q\<lparr>awaiting := Some k, log := log q @ [Started k j]\<rparr>)"

text \<open>
  Lines 13 to 38. When the store of line 14 throws, the call ends there with the error.
  The executor of \<^verbatim>\<open>new Promise\<close> runs at once, inside the call, up to its first
  \<^verbatim>\<open>await\<close>; the assignment to \<^verbatim>\<open>this.promise\<close> happens after it.
\<close>

definition appendJob :: "string \<Rightarrow> 'j \<Rightarrow> 'j queue \<Rightarrow> js_error + 'j queue" where
  "appendJob jobId job q =
     (case set_prop jobId job q of
        Inl e \<Rightarrow> Inl e
      | Inr q1 \<Rightarrow>
          Inr (if promise q1 then q1
               else (loop_head (q1\<lparr>drain := Pending\<rparr>))\<lparr>promise := True\<rparr>))"

text \<open>
  Lines 29 to 35 and back to the head: the awaited job has settled, with \<open>None\<close> when it
  resolved and \<open>Some e\<close> when it rejected with \<open>e\<close>.
\<close>

definition resume :: "js_error option \<Rightarrow> 'j queue \<Rightarrow> 'j queue" where
  "resume outcome q =
     (case awaiting q of
        None \<Rightarrow> q
      | Some k \<Rightarrow>
          (let q1 = (case outcome of None \<Rightarrow> q | Some e \<Rightarrow> reject e q);
               q2 = q1\<lparr>jobs := delete_prop k (jobs q1), awaiting := None\<rparr>
           in loop_head q2))"

subsection \<open>Runs\<close>

text \<open>
  What happens to a queue: a call of \<^verbatim>\<open>appendJob\<close>, or the running job settling. A call
  of \<^verbatim>\<open>appendJob\<close> that throws hands its error to the caller and leaves the queue as it
  was.
\<close>

datatype 'j input = Append string 'j | Settle "js_error option"

fun step :: "'j input \<Rightarrow> 'j queue \<Rightarrow> 'j queue" where
  "step (Append k j) q = (case appendJob k j q of Inl e \<Rightarrow> q | Inr q' \<Rightarrow> q')"
| "step (Settle outcome) q = resume outcome q"

fun run :: "'j input list \<Rightarrow> 'j queue \<Rightarrow> 'j queue" where
  "run [] q = q"
| "run (i # is) q = run is (step i q)"

text \<open>The rest of a drain cycle when nothing more is appended: one outcome per job run.\<close>

fun settle_all :: "js_error option list \<Rightarrow> 'j queue \<Rightarrow> 'j queue" where
  "settle_all [] q = q"
| "settle_all (outcome # outcomes) q = settle_all outcomes (resume outcome q)"

text \<open>
  A state the class can be in between two segments: the keys of the object are distinct,
  and a suspended loop has \<^verbatim>\<open>this.promise\<close> defined.
\<close>

definition consistent :: "'j queue \<Rightarrow> bool" where
  "consistent q = (distinct (map fst (jobs q)) \<and> (awaiting q = None \<or> promise q))"

text \<open>The number of calls of \<^verbatim>\<open>onEmptyQueue\<close> so far.\<close>

definition callbacks :: "'j queue \<Rightarrow> nat" where
  "callbacks q = length (filter (\<lambda>e. e = Callback) (log q))"

text \<open>The calls of job bodies that a list of properties gives rise to, one per property.\<close>

definition starts :: "(string \<times> 'j) list \<Rightarrow> 'j event list" where
  "starts ps = map (\<lambda>p. Started (fst p) (snd p)) ps"

text \<open>Whether every job of a list of outcomes resolved.\<close>

definition all_resolved :: "js_error option list \<Rightarrow> bool" where
  "all_resolved outcomes = list_all (\<lambda>outcome. outcome = None) outcomes"

text \<open>The events that are calls of a job stored under \<open>k\<close>.\<close>

fun started_under :: "string \<Rightarrow> 'j event \<Rightarrow> bool" where
  "started_under k (Started k' j) = (k' = k)"
| "started_under k Callback = False"

text \<open>
  A drain cycle lasts from the start of a loop to its \<^verbatim>\<open>return\<close>. For a queue with a loop
  suspended, \<open>completes_cycle inputs q\<close> says that the inputs carry the loop to its
  \<^verbatim>\<open>return\<close> at the last of them and not before.
\<close>

fun completes_cycle :: "'j input list \<Rightarrow> 'j queue \<Rightarrow> bool" where
  "completes_cycle [] q = False"
| "completes_cycle (i # is) q =
     (if awaiting (step i q) = None then is = [] else completes_cycle is (step i q))"

text \<open>Whether some job body rejected.\<close>

fun rejection :: "'j input \<Rightarrow> bool" where
  "rejection (Settle (Some e)) = True"
| "rejection _ = False"

definition some_rejection :: "'j input list \<Rightarrow> bool" where
  "some_rejection inputs = list_ex rejection inputs"

text \<open>
  The order of \<^verbatim>\<open>Object.keys\<close>, stated on its own: \<open>listed_before k k'\<close> says that the key
  \<open>k\<close> may stand before the key \<open>k'\<close>. An array index stands before every key that is not
  one, and before an array index that is not smaller.
\<close>

definition listed_before :: "string \<Rightarrow> string \<Rightarrow> bool" where
  "listed_before k k' =
     (case array_index k of
        None \<Rightarrow> array_index k' = None
      | Some i \<Rightarrow> (case array_index k' of None \<Rightarrow> True | Some i' \<Rightarrow> i \<le> i'))"

definition keys_ordered :: "(string \<times> 'a) list \<Rightarrow> bool" where
  "keys_ordered ps = sorted_wrt (\<lambda>p p'. listed_before (fst p) (fst p')) ps"





section \<open>Properties of the request executor and the validator\<close>

declare send_loop.simps [simp del]

lemma send_loop_retry:
  assumes "counter + 1 < numberOfRequestRetries" and "retried (net (counter + 1))"
  shows "send_loop net counter tr = send_loop net (counter + 1) (tr @ [Fetch, Sleep sleepTimeout])"
  using assms
  by (subst send_loop.simps) (cases "net (counter + 1)"; simp)

lemma send_loop_retries:
  assumes "counter + n < numberOfRequestRetries"
    and "\<forall>i. counter < i \<and> i \<le> counter + n \<longrightarrow> retried (net i)"
  shows "send_loop net counter tr = send_loop net (counter + n) (tr @ backoff n)"
  using assms
proof (induction n arbitrary: counter tr)
  case 0
  then show ?case by (simp add: backoff_def)
next
  case (Suc n)
  have a: "send_loop net counter tr = send_loop net (counter + 1) (tr @ [Fetch, Sleep sleepTimeout])"
    using Suc.prems by (intro send_loop_retry) auto
  have b: "send_loop net (counter + 1) (tr @ [Fetch, Sleep sleepTimeout])
      = send_loop net (counter + 1 + n) ((tr @ [Fetch, Sleep sleepTimeout]) @ backoff n)"
    using Suc.prems by (intro Suc.IH) auto
  show ?case using a b by (simp add: backoff_def)
qed

lemma send_loop_last:
  assumes "counter + 1 = numberOfRequestRetries" and "retried (net (counter + 1))"
  shows "send_loop net counter tr = (Inl (final_error (net (counter + 1))), tr @ [Fetch])"
  using assms
  by (subst send_loop.simps) (cases "net (counter + 1)"; simp)

lemma send_loop_return:
  assumes "net (counter + 1) = Responds r" and "status r < 500"
  shows "send_loop net counter tr = (Inr r, tr @ [Fetch])"
  using assms
  by (subst send_loop.simps) simp

lemma filter_backoff_Fetch: "length (filter (\<lambda>x. x = Fetch) (backoff n)) = n"
  by (induction n) (simp_all add: backoff_def)

lemma filter_backoff_Sleep: "length (filter (\<lambda>x. x = Sleep sleepTimeout) (backoff n)) = n"
  by (induction n) (simp_all add: backoff_def)

lemma send_loop_throw:
  assumes "net (c + 1) = Rejects e" and "\<not> (c + 1 < numberOfRequestRetries \<and> transient e)"
  shows "send_loop net c tr = (Inl e, tr @ [Fetch])"
  using assms by (subst send_loop.simps) auto

lemma send_loop_5xx_exhausted:
  assumes "net (c + 1) = Responds r" and "status r \<ge> 500" and "numberOfRequestRetries \<le> c + 1"
  shows "send_loop net c tr =
    (Inl (Error (UnexpectedStatusCodeAfterRetries (status r) numberOfRequestRetries)), tr @ [Fetch])"
  using assms by (subst send_loop.simps) auto

lemma send_loop_cases:
  "(\<exists>e. send_loop net c tr = (Inl e, tr @ [Fetch]))
   \<or> (\<exists>r. send_loop net c tr = (Inr r, tr @ [Fetch]) \<and> status r < 500)
   \<or> (c + 1 < numberOfRequestRetries
       \<and> send_loop net c tr = send_loop net (c + 1) (tr @ [Fetch, Sleep sleepTimeout]))"
proof (cases "net (c + 1)")
  case (Responds r)
  show ?thesis
  proof (cases "status r < 500")
    case True
    then show ?thesis using send_loop_return [of net c r tr] Responds by blast
  next
    case False
    show ?thesis
    proof (cases "c + 1 < numberOfRequestRetries")
      case True
      then show ?thesis using send_loop_retry [of c net tr] Responds False by simp
    next
      case f: False
      then show ?thesis using send_loop_5xx_exhausted [of net c r tr] Responds False by simp
    qed
  qed
next
  case (Rejects e)
  show ?thesis
  proof (cases "c + 1 < numberOfRequestRetries \<and> transient e")
    case True
    then show ?thesis using send_loop_retry [of c net tr] Rejects by simp
  next
    case False
    then show ?thesis using send_loop_throw [of net c e tr] Rejects by blast
  qed
qed

lemma send_loop_below_500:
  "fst (send_loop net counter tr) = Inr r \<Longrightarrow> status r < 500"
proof (induction "numberOfRequestRetries - counter" arbitrary: counter tr)
  case 0
  then show ?case using send_loop_cases [of net counter tr] by auto
next
  case (Suc n)
  from send_loop_cases [of net counter tr] show ?case
  proof (elim disjE exE conjE)
    fix e assume "send_loop net counter tr = (Inl e, tr @ [Fetch])"
    with Suc.prems show ?thesis by simp
  next
    fix r' assume "send_loop net counter tr = (Inr r', tr @ [Fetch])" "status r' < 500"
    with Suc.prems show ?thesis by simp
  next
    assume a: "counter + 1 < numberOfRequestRetries"
      and b: "send_loop net counter tr = send_loop net (counter + 1) (tr @ [Fetch, Sleep sleepTimeout])"
    have "n = numberOfRequestRetries - (counter + 1)" using Suc.hyps(2) by simp
    from Suc.hyps(1) [OF this] Suc.prems b show ?thesis by simp
  qed
qed

text \<open>
  Claim C6. If each of the twenty attempts either rejects with a transient network error
  (a \<^verbatim>\<open>FetchError\<close> of type \<^verbatim>\<open>system\<close> or \<^verbatim>\<open>request-timeout\<close>) or answers with a status
  of 500 or more, then \<^verbatim>\<open>sendRawRequest\<close> fails after exactly 20 calls of \<^verbatim>\<open>fetch\<close>, with a
  pause of 10000 ms after each of the first 19 and none after the last. When the last
  attempt answered with a status, the error carries that status and the count 20; when it
  rejected, its error is rethrown.
\<close>

theorem sendRawRequest_exhausts:
  assumes "\<forall>i. 1 \<le> i \<and> i \<le> numberOfRequestRetries \<longrightarrow> retried (net i)"
  shows "numberOfRequestRetries = 20 \<and> sleepTimeout = 10000
         \<and> sendRawRequest net =
             (Inl (final_error (net numberOfRequestRetries)), backoff 19 @ [Fetch])
         \<and> length (filter (\<lambda>x. x = Fetch) (snd (sendRawRequest net))) = 20
         \<and> length (filter (\<lambda>x. x = Sleep 10000) (snd (sendRawRequest net))) = 19
         \<and> (\<forall>r. net 20 = Responds r \<longrightarrow>
               fst (sendRawRequest net) = Inl (Error (UnexpectedStatusCodeAfterRetries (status r) 20)))"
proof -
  have n: "numberOfRequestRetries = 20" by (simp add: numberOfRequestRetries_def)
  have s: "sleepTimeout = 10000" by (simp add: sleepTimeout_def)
  have a: "send_loop net 0 [] = send_loop net (0 + 19) ([] @ backoff 19)"
    using assms by (intro send_loop_retries) (simp_all add: n)
  have "retried (net (19 + 1))" using assms by (simp add: n)
  then have b: "send_loop net 19 (backoff 19) = (Inl (final_error (net (19 + 1))), backoff 19 @ [Fetch])"
    by (intro send_loop_last) (simp add: n)
  have r: "sendRawRequest net = (Inl (final_error (net 20)), backoff 19 @ [Fetch])"
    using a b by (simp add: sendRawRequest_def)
  have f: "length (filter (\<lambda>x. x = Fetch) (backoff 19 @ [Fetch])) = 20"
    by (simp add: filter_backoff_Fetch)
  have sl: "length (filter (\<lambda>x. x = Sleep 10000) (backoff 19 @ [Fetch])) = 19"
    using filter_backoff_Sleep [of 19] by (simp add: s)
  have l: "\<forall>r. net 20 = Responds r \<longrightarrow>
               fst (sendRawRequest net) = Inl (Error (UnexpectedStatusCodeAfterRetries (status r) 20))"
    by (simp add: r n)
  show ?thesis using r f sl n s l by simp
qed

theorem sendRawRequest_exhausts_witness:
  "sendRawRequest (\<lambda>i. Responds \<lparr>status = 503, json_body = None\<rparr>) =
     (Inl (Error (UnexpectedStatusCodeAfterRetries 503 20)), backoff 19 @ [Fetch])
   \<and> sendRawRequest (\<lambda>i. if even i then Rejects (FetchError RequestTimeout)
                          else Responds \<lparr>status = 502, json_body = None\<rparr>) =
     (Inl (FetchError RequestTimeout), backoff 19 @ [Fetch])"
proof -
  have h1: "\<forall>i. 1 \<le> i \<and> i \<le> numberOfRequestRetries \<longrightarrow>
      retried ((\<lambda>i. Responds \<lparr>status = 503, json_body = None\<rparr>) i)"
    by simp
  have h2: "\<forall>i. 1 \<le> i \<and> i \<le> numberOfRequestRetries \<longrightarrow>
      retried ((\<lambda>i. if even i then Rejects (FetchError RequestTimeout)
                          else Responds \<lparr>status = 502, json_body = None\<rparr>) i)"
    by simp
  have e: "even numberOfRequestRetries" by (simp add: numberOfRequestRetries_def)
  show ?thesis
    using sendRawRequest_exhausts [OF h1] sendRawRequest_exhausts [OF h2] e
    by simp
qed

text \<open>
  Claim C7. When the first \<open>N\<close> attempts (\<open>N\<close> below 20) answer with a status of 500 or more
  and attempt \<open>N + 1\<close> answers with a status below 500, \<^verbatim>\<open>sendRawRequest\<close> returns that very
  response after \<open>N + 1\<close> calls of \<^verbatim>\<open>fetch\<close> and \<open>N\<close> pauses. This covers a status in
  \<open>[200, 300)\<close> after \<open>N\<close> retries, and with \<open>N = 0\<close> a 4xx returned as it is, with no retry.
\<close>

theorem sendRawRequest_succeeds_after_retries:
  assumes "N < numberOfRequestRetries"
    and "\<forall>i. 1 \<le> i \<and> i \<le> N \<longrightarrow> (\<exists>r'. net i = Responds r' \<and> status r' \<ge> 500)"
    and "net (N + 1) = Responds r"
    and "status r < 500"
  shows "sendRawRequest net = (Inr r, backoff N @ [Fetch])
         \<and> length (filter (\<lambda>x. x = Sleep sleepTimeout) (snd (sendRawRequest net))) = N
         \<and> length (filter (\<lambda>x. x = Fetch) (snd (sendRawRequest net))) = N + 1"
proof -
  have "\<forall>i. 0 < i \<and> i \<le> 0 + N \<longrightarrow> retried (net i)"
  proof (intro allI impI)
    fix i assume "0 < i \<and> i \<le> 0 + N"
    then have "1 \<le> i \<and> i \<le> N" by simp
    with assms(2) obtain r' where "net i = Responds r'" "status r' \<ge> 500" by blast
    then show "retried (net i)" by simp
  qed
  then have a: "send_loop net 0 [] = send_loop net (0 + N) ([] @ backoff N)"
    using assms(1) by (intro send_loop_retries) simp_all
  have b: "send_loop net N (backoff N) = (Inr r, backoff N @ [Fetch])"
    using send_loop_return [of net N r "backoff N"] assms(3,4) by simp
  have r: "sendRawRequest net = (Inr r, backoff N @ [Fetch])"
    using a b by (simp add: sendRawRequest_def)
  show ?thesis
    by (simp add: r filter_backoff_Fetch filter_backoff_Sleep)
qed

theorem sendRawRequest_succeeds_after_retries_witness:
  "sendRawRequest (\<lambda>i. if i \<le> 3 then Responds \<lparr>status = 500, json_body = None\<rparr>
                        else Responds \<lparr>status = 204, json_body = None\<rparr>)
     = (Inr \<lparr>status = 204, json_body = None\<rparr>,
        [Fetch, Sleep 10000, Fetch, Sleep 10000, Fetch, Sleep 10000, Fetch])
   \<and> sendRawRequest (\<lambda>i. Responds \<lparr>status = 404, json_body = None\<rparr>)
     = (Inr \<lparr>status = 404, json_body = None\<rparr>, [Fetch])"
proof -
  let ?net = "\<lambda>i::nat. if i \<le> 3 then Responds \<lparr>status = 500, json_body = None\<rparr>
                        else Responds \<lparr>status = 204, json_body = None\<rparr>"
  let ?net' = "\<lambda>i::nat. Responds \<lparr>status = 404, json_body = None\<rparr>"
  have n3: "(3::nat) < numberOfRequestRetries" and n0: "(0::nat) < numberOfRequestRetries"
    by (simp_all add: numberOfRequestRetries_def)
  have h: "\<forall>i. 1 \<le> i \<and> i \<le> 3 \<longrightarrow> (\<exists>r'. ?net i = Responds r' \<and> status r' \<ge> 500)"
    by simp
  have h': "\<forall>i. 1 \<le> i \<and> i \<le> 0 \<longrightarrow> (\<exists>r'. ?net' i = Responds r' \<and> status r' \<ge> 500)"
    by simp
  have l: "?net (3 + 1) = Responds \<lparr>status = 204, json_body = None\<rparr>" by simp
  have l': "?net' (0 + 1) = Responds \<lparr>status = 404, json_body = None\<rparr>" by simp
  have b3: "backoff 3 = [Fetch, Sleep 10000, Fetch, Sleep 10000, Fetch, Sleep 10000]"
    by (simp add: backoff_def sleepTimeout_def numeral_3_eq_3)
  have b0: "backoff 0 = []" by (simp add: backoff_def)
  show ?thesis
    using sendRawRequest_succeeds_after_retries [OF n3 h l]
      sendRawRequest_succeeds_after_retries [OF n0 h' l']
    by (simp add: b3 b0)
qed

text \<open>
  Claim C10. Whatever \<^verbatim>\<open>fetch\<close> does, a response that \<^verbatim>\<open>sendRawRequest\<close> returns has a
  status below 500. (That the call always ends, with a response or an error, is the
  termination of \<open>send_loop\<close>.)
\<close>

theorem sendRawRequest_never_returns_5xx:
  "fst (sendRawRequest net) = Inr r \<Longrightarrow> status r < 500"
  unfolding sendRawRequest_def by (rule send_loop_below_500)

theorem sendRawRequest_never_returns_5xx_witness:
  "fst (sendRawRequest (\<lambda>i. Responds \<lparr>status = 403, json_body = None\<rparr>))
     = Inr \<lparr>status = 403, json_body = None\<rparr> \<and> (403::nat) < 500"
proof -
  have e: "fst (sendRawRequest (\<lambda>i. Responds \<lparr>status = 403, json_body = None\<rparr>))
     = Inr \<lparr>status = 403, json_body = None\<rparr>"
    by (simp add: sendRawRequest_def send_loop_return)
  from sendRawRequest_never_returns_5xx [OF e] e show ?thesis by simp
qed

text \<open>
  Claim C8. \<^verbatim>\<open>validateResponseStatus\<close> throws \<^verbatim>\<open>Unauthorized\<close> on 401, \<^verbatim>\<open>Forbidden\<close> on 403,
  returns normally on every status in \<open>[200, 300)\<close>, throws
  \<^verbatim>\<open>Unexpected status code\<close> with the status on every other one, and two responses with
  the same status are classified alike.
\<close>

theorem validateResponseStatus_classifies:
  "(status r = 401 \<longrightarrow> validateResponseStatus r = Inl (Error Unauthorized))
   \<and> (status r = 403 \<longrightarrow> validateResponseStatus r = Inl (Error Forbidden))
   \<and> (200 \<le> status r \<and> status r < 300 \<longrightarrow> validateResponseStatus r = Inr ())
   \<and> (status r \<noteq> 401 \<and> status r \<noteq> 403 \<and> \<not> (200 \<le> status r \<and> status r < 300) \<longrightarrow>
        validateResponseStatus r = Inl (Error (UnexpectedStatusCode (status r))))
   \<and> (status r = status r' \<longrightarrow> validateResponseStatus r = validateResponseStatus r')"
  by (auto simp: validateResponseStatus_def)

theorem validateResponseStatus_classifies_witness:
  "validateResponseStatus \<lparr>status = 401, json_body = None\<rparr> = Inl (Error Unauthorized)
   \<and> validateResponseStatus \<lparr>status = 403, json_body = None\<rparr> = Inl (Error Forbidden)
   \<and> validateResponseStatus \<lparr>status = 204, json_body = None\<rparr> = Inr ()
   \<and> validateResponseStatus \<lparr>status = 404, json_body = None\<rparr> = Inl (Error (UnexpectedStatusCode 404))
   \<and> validateResponseStatus \<lparr>status = 200, json_body = Some JNull\<rparr>
       = validateResponseStatus \<lparr>status = 200, json_body = None\<rparr>"
  using validateResponseStatus_classifies [of "\<lparr>status = 401, json_body = None\<rparr>"]
    validateResponseStatus_classifies [of "\<lparr>status = 403, json_body = None\<rparr>"]
    validateResponseStatus_classifies [of "\<lparr>status = 204, json_body = None\<rparr>"]
    validateResponseStatus_classifies [of "\<lparr>status = 404, json_body = None\<rparr>"]
    validateResponseStatus_classifies [of "\<lparr>status = 200, json_body = Some JNull\<rparr>" "\<lparr>status = 200, json_body = None\<rparr>"]
    validateResponseStatus_classifies [of "\<lparr>status = 200, json_body = None\<rparr>"]
  by simp

text \<open>
  Claim C9, at a body that is not an object: the server answers 200 with the JSON text
  \<^verbatim>\<open>null\<close>. \<^verbatim>\<open>typeof null\<close> is \<^verbatim>\<open>'object'\<close>, so the check of line 172 does not throw
  and the call returns \<^verbatim>\<open>null\<close> as its result.
\<close>

theorem sendRequestWithSingleResponse_returns_null:
  "sendRequestWithSingleResponse (\<lambda>i. Responds \<lparr>status = 200, json_body = Some JNull\<rparr>) = Inr JNull"
  by (simp add: sendRequestWithSingleResponse_def sendRawRequest_def send_loop_return
      validateResponseStatus_def response_json_def)


text \<open>The parts of C9 that the code does satisfy, for reference.\<close>

lemma single_rejects_primitive:
  assumes "fst (sendRawRequest net) = Inr r" and "validateResponseStatus r = Inr ()"
    and "json_body r = Some d" and "typeof d \<noteq> ''object''"
  shows "sendRequestWithSingleResponse net = Inl (Error InvalidResponse)"
  using assms
  by (cases d) (simp_all add: sendRequestWithSingleResponse_def response_json_def)

lemma multi_rejects_non_array:
  assumes "fst (sendRawRequest net) = Inr r" and "validateResponseStatus r = Inr ()"
    and "json_body r = Some d" and "\<not> isArray d"
  shows "sendRequestWithMultiResponse net = Inl (Error InvalidResponse)"
  using assms
  by (simp add: sendRequestWithMultiResponse_def response_json_def)

lemma status_error_comes_first:
  assumes "fst (sendRawRequest net) = Inr r" and "validateResponseStatus r = Inl e"
  shows "sendRequestWithSingleResponse net = Inl e"
    and "sendRequestWithMultiResponse net = Inl e"
  using assms
  by (simp_all add: sendRequestWithSingleResponse_def sendRequestWithMultiResponse_def)

section \<open>Properties of the queue\<close>

subsection \<open>The dictionary object\<close>

lemma keys_insert_new: "fst ` set (insert_new k v ps) = insert k (fst ` set ps)"
  by (induction ps) auto

lemma distinct_insert_new:
  "distinct (map fst ps) \<Longrightarrow> k \<notin> set (map fst ps) \<Longrightarrow> distinct (map fst (insert_new k v ps))"
proof (induction ps)
  case Nil
  then show ?case by simp
next
  case (Cons p ps)
  then have "distinct (map fst (insert_new k v ps))" by simp
  moreover have "fst p \<notin> set (map fst (insert_new k v ps))"
    using Cons.prems by (auto simp: keys_insert_new)
  ultimately show ?case using Cons.prems by auto
qed


lemma map_fst_replace: "map fst (map (\<lambda>p. if fst p = k then (k, v) else p) ps) = map fst ps"
  by (induction ps) auto

lemma distinct_put_own:
  "distinct (map fst ps) \<Longrightarrow> distinct (map fst (put_own k v ps))"
  by (simp add: put_own_def map_fst_replace distinct_insert_new del: map_map)

lemma distinct_delete_prop:
  "distinct (map fst ps) \<Longrightarrow> distinct (map fst (delete_prop k ps))"
  by (simp add: delete_prop_def distinct_map_filter)





lemma keys_put_own: "fst ` set (put_own k v ps) = insert k (fst ` set ps)"
proof (cases "k \<in> set (map fst ps)")
  case True
  have "set (map fst (map (\<lambda>p. if fst p = k then (k, v) else p) ps)) = set (map fst ps)"
    by (simp only: map_fst_replace)
  then have "fst ` set (map (\<lambda>p. if fst p = k then (k, v) else p) ps) = fst ` set ps"
    by (simp del: map_map)
  then show ?thesis using True by (auto simp: put_own_def simp del: map_map)
next
  case False
  then show ?thesis by (simp add: put_own_def keys_insert_new)
qed



lemma delete_prop_head:
  "distinct (map fst ((k, j) # rest)) \<Longrightarrow> delete_prop k ((k, j) # rest) = rest"
proof -
  assume "distinct (map fst ((k, j) # rest))"
  then have "k \<notin> set (map fst rest)" by simp
  then have "filter (\<lambda>p. fst p \<noteq> k) rest = rest"
    by (induction rest) auto
  then show ?thesis by (simp add: delete_prop_def)
qed

subsection \<open>The segments\<close>

lemma set_prop_stores:
  "k \<noteq> ''__proto__'' \<Longrightarrow> \<not> store_throws k q \<Longrightarrow>
   set_prop k j q = Inr (q\<lparr>jobs := put_own k j (jobs q)\<rparr>)"
  by (simp add: set_prop_def)


text \<open>
  While a loop is alive a call of \<^verbatim>\<open>appendJob\<close> changes the object at most: it stores
  the job, or replaces the prototype, or throws.
\<close>

lemma step_Append_running:
  assumes "promise q"
  shows "step (Append k j) q = q\<lparr>jobs := put_own k j (jobs q)\<rparr>
       \<or> step (Append k j) q = q\<lparr>inherits_function := True\<rparr>
       \<or> step (Append k j) q = q"
  using assms by (simp add: appendJob_def set_prop_def)

lemma resume_awaiting:
  assumes "awaiting q = Some k0"
  shows "resume outcome q =
    loop_head ((case outcome of None \<Rightarrow> q | Some e \<Rightarrow> reject e q)
                \<lparr>jobs := delete_prop k0 (jobs q), awaiting := None\<rparr>)"
  using assms by (cases outcome) (simp_all add: resume_def Let_def reject_def)

lemma resume_last:
  assumes "awaiting q = Some k0" and "delete_prop k0 (jobs q) = []"
  shows "resume outcome q =
    q\<lparr>jobs := [], awaiting := None, promise := False,
      drain := (if drain q = Pending then (case outcome of None \<Rightarrow> Fulfilled | Some e \<Rightarrow> Rejected e)
                else drain q),
      log := log q @ (if drain q = Pending \<and> outcome = None then [Callback] else [])\<rparr>"
  using assms
  by (cases outcome) (simp_all add: resume_awaiting loop_head_def resolve_def reject_def)

lemma resume_next:
  assumes "awaiting q = Some k0" and "delete_prop k0 (jobs q) = (k1, j1) # rest"
  shows "resume outcome q =
    q\<lparr>jobs := (k1, j1) # rest, awaiting := Some k1,
      drain := (if drain q = Pending then (case outcome of None \<Rightarrow> Pending | Some e \<Rightarrow> Rejected e)
                else drain q),
      log := log q @ [Started k1 j1]\<rparr>"
  using assms
  by (cases outcome) (simp_all add: resume_awaiting loop_head_def reject_def)

text \<open>
  The rest of a drain cycle with nothing more appended: the loop calls the job of every
  property left after the running job's key is deleted, in the order of the object's keys,
  and ends on the empty object; the callback runs at the end when no job of the cycle
  has rejected.
\<close>

lemma settle_all_drains:
  assumes "awaiting q = Some k0" and "distinct (map fst (jobs q))"
    and "length outcomes = Suc (length (delete_prop k0 (jobs q)))"
  shows "log (settle_all outcomes q) =
           log q @ starts (delete_prop k0 (jobs q))
             @ (if drain q = Pending \<and> all_resolved outcomes then [Callback] else [])
         \<and> jobs (settle_all outcomes q) = []
         \<and> awaiting (settle_all outcomes q) = None
         \<and> \<not> promise (settle_all outcomes q)
         \<and> (drain (settle_all outcomes q) = Fulfilled \<longleftrightarrow>
              (drain q = Pending \<and> all_resolved outcomes) \<or> drain q = Fulfilled)"
  using assms
proof (induction outcomes arbitrary: q k0)
  case Nil
  then show ?case by simp
next
  case (Cons outcome outcomes)
  show ?case
  proof (cases "delete_prop k0 (jobs q)")
    case Nil
    then have "outcomes = []" using Cons.prems(3) by simp
    then show ?thesis
      using resume_last [OF Cons.prems(1) Nil, of outcome] Nil
      by (cases outcome) (simp_all add: starts_def all_resolved_def)
  next
    case (Cons p rest)
    obtain k1 j1 where p: "p = (k1, j1)" by (cases p)
    let ?q = "resume outcome q"
    have r: "?q = q\<lparr>jobs := (k1, j1) # rest, awaiting := Some k1,
      drain := (if drain q = Pending then (case outcome of None \<Rightarrow> Pending | Some e \<Rightarrow> Rejected e)
                else drain q),
      log := log q @ [Started k1 j1]\<rparr>"
      using resume_next [OF Cons.prems(1), of k1 j1 rest outcome] Cons p by simp
    have d: "distinct (map fst ((k1, j1) # rest))"
      using distinct_delete_prop [OF Cons.prems(2), of k0] Cons p by simp
    have del: "delete_prop k1 (jobs ?q) = rest"
      using delete_prop_head [OF d] r by simp
    have a: "awaiting ?q = Some k1" using r by simp
    have dj: "distinct (map fst (jobs ?q))" using d r by simp
    have len: "length outcomes = Suc (length (delete_prop k1 (jobs ?q)))"
      using Cons.prems(3) Cons del by simp
    note ih = Cons.IH [OF a dj len]
    have dr: "drain ?q = Pending \<longleftrightarrow> drain q = Pending \<and> outcome = None"
      using r by (cases outcome) simp_all
    have df: "drain ?q = Fulfilled \<longleftrightarrow> drain q = Fulfilled"
      using r by (cases outcome) simp_all
    have lg: "log ?q = log q @ [Started k1 j1]" using r by simp
    show ?thesis
      using ih del Cons p dr df lg
      by (simp add: starts_def all_resolved_def)
  qed
qed

subsection \<open>Reachable states\<close>

lemma jobs_loop_head: "jobs (loop_head q) = jobs q"
  by (cases "jobs q") (auto simp: loop_head_def resolve_def)

lemma inherits_loop_head: "inherits_function (loop_head q) = inherits_function q"
  by (cases "jobs q") (auto simp: loop_head_def resolve_def)

lemma appendJob_consistent:
  assumes "consistent q" and "appendJob k j q = Inr q'"
  shows "consistent q'"
proof -
  have d: "distinct (map fst (put_own k j (jobs q)))"
    using assms(1) by (simp add: consistent_def distinct_put_own)
  obtain q1 where s: "set_prop k j q = Inr q1"
    using assms(2) by (cases "set_prop k j q") (simp_all add: appendJob_def)
  have q1: "q1 = q\<lparr>inherits_function := True\<rparr> \<or> q1 = q\<lparr>jobs := put_own k j (jobs q)\<rparr>"
    using s by (auto simp: set_prop_def split: if_splits)
  have c1: "consistent q1"
    using q1 assms(1) d by (auto simp: consistent_def)
  have q': "q' = (if promise q1 then q1 else (loop_head (q1\<lparr>drain := Pending\<rparr>))\<lparr>promise := True\<rparr>)"
    using assms(2) s by (simp add: appendJob_def)
  show ?thesis
  proof (cases "promise q1")
    case True
    then show ?thesis using q' c1 by simp
  next
    case False
    then show ?thesis using q' c1 by (simp add: consistent_def jobs_loop_head)
  qed
qed

lemma resume_consistent: "consistent q \<Longrightarrow> consistent (resume outcome q)"
proof (cases "awaiting q")
  case None
  assume "consistent q"
  then show ?thesis using None by (simp add: resume_def)
next
  case (Some k0)
  assume c: "consistent q"
  then have d: "distinct (map fst (delete_prop k0 (jobs q)))"
    by (simp add: consistent_def distinct_delete_prop)
  show ?thesis
  proof (cases "delete_prop k0 (jobs q)")
    case Nil
    then show ?thesis using resume_last [OF Some Nil, of outcome] by (simp add: consistent_def)
  next
    case (Cons p rest)
    obtain k1 j1 where p: "p = (k1, j1)" by (cases p)
    show ?thesis
      using resume_next [OF Some, of k1 j1 rest outcome] Cons p d c Some
      by (simp add: consistent_def)
  qed
qed

lemma step_consistent: "consistent q \<Longrightarrow> consistent (step i q)"
proof (cases i)
  case (Append k j)
  assume "consistent q"
  then show ?thesis
    using Append appendJob_consistent [of q k j]
    by (cases "appendJob k j q") simp_all
next
  case (Settle outcome)
  assume "consistent q"
  then show ?thesis using Settle by (simp add: resume_consistent)
qed

lemma run_consistent: "consistent q \<Longrightarrow> consistent (run inputs q)"
  by (induction inputs arbitrary: q) (simp_all add: step_consistent)

text \<open>Every state a new queue can reach is consistent.\<close>

lemma reachable_consistent: "consistent (run inputs new_queue)"
  by (rule run_consistent) (simp add: consistent_def new_queue_def)

subsection \<open>Drain cycles under arbitrary interleaving\<close>

lemma cycle_callbacks:
  assumes "consistent q" and "awaiting q \<noteq> None" and "completes_cycle inputs q"
  shows "callbacks (run inputs q) =
           callbacks q + (if drain q = Pending \<and> \<not> some_rejection inputs then 1 else 0)
         \<and> jobs (run inputs q) = [] \<and> \<not> promise (run inputs q) \<and> awaiting (run inputs q) = None
         \<and> (drain q = Pending \<and> \<not> some_rejection inputs \<longrightarrow>
              (\<exists>l. log (run inputs q) = l @ [Callback]))"
  using assms
proof (induction inputs arbitrary: q)
  case Nil
  then show ?case by simp
next
  case (Cons i inputs)
  from Cons.prems(2) obtain k0 where k0: "awaiting q = Some k0" by auto
  have pq: "promise q" using Cons.prems(1,2) by (simp add: consistent_def)
  show ?case
  proof (cases i)
    case (Append k j)
    let ?q = "step i q"
    have s: "awaiting ?q = awaiting q \<and> log ?q = log q \<and> drain ?q = drain q"
      using step_Append_running [OF pq, of k j] Append by auto
    have c: "consistent ?q" using Cons.prems(1) by (rule step_consistent)
    have a: "awaiting ?q \<noteq> None" using s k0 by simp
    have cc: "completes_cycle inputs ?q" using Cons.prems(3) a by simp
    note ih = Cons.IH [OF c a cc]
    have "callbacks ?q = callbacks q" "drain ?q = drain q"
      using s by (simp_all add: callbacks_def)
    moreover have "some_rejection (i # inputs) = some_rejection inputs"
      using Append by (simp add: some_rejection_def)
    ultimately show ?thesis using ih by simp
  next
    case (Settle outcome)
    show ?thesis
    proof (cases "delete_prop k0 (jobs q)")
      case Nil
      have r: "step i q = q\<lparr>jobs := [], awaiting := None, promise := False,
          drain := (if drain q = Pending then (case outcome of None \<Rightarrow> Fulfilled | Some e \<Rightarrow> Rejected e)
                    else drain q),
          log := log q @ (if drain q = Pending \<and> outcome = None then [Callback] else [])\<rparr>"
        using resume_last [OF k0 Nil, of outcome] Settle by simp
      then have e: "inputs = []" using Cons.prems(3) by simp
      have sr: "some_rejection (i # inputs) \<longleftrightarrow> outcome \<noteq> None"
        using Settle e by (cases outcome) (simp_all add: some_rejection_def)
      show ?thesis using r e sr by (simp add: callbacks_def)
    next
      case (Cons p rest)
      obtain k1 j1 where p: "p = (k1, j1)" by (cases p)
      let ?q = "step i q"
      have r: "?q = q\<lparr>jobs := (k1, j1) # rest, awaiting := Some k1,
          drain := (if drain q = Pending then (case outcome of None \<Rightarrow> Pending | Some e \<Rightarrow> Rejected e)
                    else drain q),
          log := log q @ [Started k1 j1]\<rparr>"
        using resume_next [OF k0, of k1 j1 rest outcome] Cons p Settle by simp
      have c: "consistent ?q" using Cons.prems(1) by (rule step_consistent)
      have a: "awaiting ?q \<noteq> None" using r by simp
      have cc: "completes_cycle inputs ?q" using Cons.prems(3) a by simp
      note ih = Cons.IH [OF c a cc]
      have cb: "callbacks ?q = callbacks q" using r by (simp add: callbacks_def)
      have dr: "drain ?q = Pending \<longleftrightarrow> drain q = Pending \<and> outcome = None"
        using r by (cases outcome) simp_all
      have sr: "some_rejection (i # inputs) \<longleftrightarrow> outcome \<noteq> None \<or> some_rejection inputs"
        using Settle by (cases outcome) (simp_all add: some_rejection_def)
      show ?thesis using ih cb dr sr by auto
    qed
  qed
qed

subsection \<open>The order of the keys\<close>

lemma set_insert_new: "set (insert_new k v ps) = insert (k, v) (set ps)"
  by (induction ps) auto

lemma precedes_listed: "precedes k a \<Longrightarrow> listed_before k a"
  by (auto simp: precedes_def listed_before_def split: option.splits)

lemma not_precedes_listed: "\<not> precedes k a \<Longrightarrow> listed_before a k"
  by (auto simp: precedes_def listed_before_def split: option.splits)

lemma precedes_later: "precedes k a \<Longrightarrow> listed_before a b \<Longrightarrow> listed_before k b"
  by (auto simp: precedes_def listed_before_def split: option.splits)

lemma insert_new_ordered: "keys_ordered ps \<Longrightarrow> keys_ordered (insert_new k v ps)"
proof (induction ps)
  case Nil
  then show ?case by (simp add: keys_ordered_def)
next
  case (Cons p ps)
  show ?case
  proof (cases "precedes k (fst p)")
    case True
    then show ?thesis
      using Cons.prems precedes_listed [OF True] precedes_later [OF True]
      by (auto simp: keys_ordered_def)
  next
    case False
    then show ?thesis
      using Cons not_precedes_listed [OF False]
      by (auto simp: keys_ordered_def set_insert_new)
  qed
qed

lemma replace_ordered:
  "keys_ordered ps \<Longrightarrow> keys_ordered (map (\<lambda>p. if fst p = k then (k, v) else p) ps)"
proof -
  have "\<And>p. fst (if fst p = k then (k, v) else p) = fst p" by simp
  then show "keys_ordered ps \<Longrightarrow> ?thesis"
    by (simp add: keys_ordered_def sorted_wrt_map)
qed

lemma put_own_ordered: "keys_ordered ps \<Longrightarrow> keys_ordered (put_own k v ps)"
  by (simp add: put_own_def insert_new_ordered replace_ordered del: map_map)

lemma delete_prop_ordered: "keys_ordered ps \<Longrightarrow> keys_ordered (delete_prop k ps)"
  by (simp add: keys_ordered_def delete_prop_def sorted_wrt_filter)

lemma step_ordered: "keys_ordered (jobs q) \<Longrightarrow> keys_ordered (jobs (step i q))"
proof (cases i)
  case (Append k j)
  assume "keys_ordered (jobs q)"
  then show ?thesis
    using Append
    by (auto simp: appendJob_def set_prop_def jobs_loop_head put_own_ordered)
next
  case (Settle outcome)
  assume o: "keys_ordered (jobs q)"
  show ?thesis
  proof (cases "awaiting q")
    case None
    then show ?thesis using Settle o by (simp add: resume_def)
  next
    case (Some k0)
    then show ?thesis
      using Settle o
      by (cases outcome)
         (simp_all add: resume_awaiting jobs_loop_head delete_prop_ordered reject_def)
  qed
qed

text \<open>
  In every state a new queue can reach, the list of jobs is in the order of
  \<^verbatim>\<open>Object.keys\<close>: array indices first, by ascending number, then the other keys.
\<close>

lemma reachable_ordered: "keys_ordered (jobs (run inputs new_queue))"
proof -
  have "keys_ordered (jobs q) \<Longrightarrow> keys_ordered (jobs (run inputs q))" for q :: "'a queue"
    by (induction inputs arbitrary: q) (simp_all add: step_ordered)
  then show ?thesis by (simp add: new_queue_def keys_ordered_def)
qed












subsection \<open>Coalescing\<close>

lemma filter_started_under_starts:
  "filter (started_under k) (starts ps) = starts (filter (\<lambda>p. fst p = k) ps)"
  by (induction ps) (simp_all add: starts_def)

lemma filter_key_delete_same: "filter (\<lambda>p. fst p = k) (delete_prop k ps) = []"
  by (induction ps) (simp_all add: delete_prop_def)

lemma started_under_after_drain:
  assumes "awaiting q = Some k0" and "distinct (map fst (jobs q))"
    and "length outcomes = Suc (length (delete_prop k0 (jobs q)))"
  shows "filter (started_under k) (drop (length (log q)) (log (settle_all outcomes q)))
         = starts (filter (\<lambda>p. fst p = k) (delete_prop k0 (jobs q)))"
proof -
  have "log (settle_all outcomes q) =
           log q @ starts (delete_prop k0 (jobs q))
             @ (if drain q = Pending \<and> all_resolved outcomes then [Callback] else [])"
    using settle_all_drains [OF assms] by simp
  then show ?thesis by (simp add: filter_started_under_starts)
qed


lemmas queue_defs = new_queue_def appendJob_def set_prop_def store_throws_def function_names_def
  resume_def loop_head_def resolve_def reject_def put_own_def delete_prop_def precedes_def
  array_index_def digit_value_def decimal_def Let_def



text \<open>
  Claim C2, at the input it describes: \<^verbatim>\<open>job1\<close> is running under \<^verbatim>\<open>mr-42\<close> when \<^verbatim>\<open>job2\<close> is
  appended under the same key. The store of line 14 replaces the property, and the
  \<^verbatim>\<open>delete\<close> of line 34, run when \<^verbatim>\<open>job1\<close> settles, removes it: the loop ends on the empty
  object and \<^verbatim>\<open>job2\<close> is never called.
\<close>

theorem appendJob_on_running_key_is_discarded:
  "run [Append ''mr-42'' ''job1'', Append ''mr-42'' ''job2''] new_queue
     = \<lparr>jobs = [(''mr-42'', ''job2'')], inherits_function = False, promise = True,
        awaiting = Some ''mr-42'', drain = Pending, log = [Started ''mr-42'' ''job1'']\<rparr>
   \<and> run [Append ''mr-42'' ''job1'', Append ''mr-42'' ''job2'', Settle None] new_queue
     = \<lparr>jobs = [], inherits_function = False, promise = False, awaiting = None,
        drain = Fulfilled, log = [Started ''mr-42'' ''job1'', Callback]\<rparr>"
  by (simp add: queue_defs)

text \<open>The same at every consistent state: nothing appended under the running key is called.\<close>

lemma appended_under_running_key_never_called:
  assumes "consistent q" and "awaiting q = Some k"
    and "length outcomes = Suc (length (delete_prop k (jobs (step (Append k newJob) q))))"
  shows "filter (started_under k)
           (drop (length (log q)) (log (settle_all outcomes (step (Append k newJob) q)))) = []"
proof -
  let ?q = "step (Append k newJob) q"
  have pq: "promise q" using assms(1,2) by (simp add: consistent_def)
  have c': "consistent ?q" using assms(1) by (rule step_consistent)
  then have d': "distinct (map fst (jobs ?q))" by (simp add: consistent_def)
  have a': "awaiting ?q = Some k" and l': "log ?q = log q"
    using step_Append_running [OF pq, of k newJob] assms(2) by auto
  have "filter (started_under k) (drop (length (log ?q)) (log (settle_all outcomes ?q)))
         = starts (filter (\<lambda>p. fst p = k) (delete_prop k (jobs ?q)))"
    using a' d' assms(3) by (rule started_under_after_drain)
  then show ?thesis using l' by (simp add: filter_key_delete_same starts_def)
qed

subsection \<open>Order of execution\<close>








subsection \<open>Failures\<close>

lemma drain_settled_resume: "drain q \<noteq> Pending \<Longrightarrow> drain (resume outcome q) = drain q"
proof (cases "awaiting q")
  case None
  then show ?thesis by (simp add: resume_def)
next
  case (Some k0)
  assume np: "drain q \<noteq> Pending"
  show ?thesis
  proof (cases "delete_prop k0 (jobs q)")
    case Nil
    then show ?thesis using resume_last [OF Some Nil, of outcome] np by simp
  next
    case (Cons p rest)
    obtain k1 j1 where "p = (k1, j1)" by (cases p)
    then show ?thesis using resume_next [OF Some, of k1 j1 rest outcome] Cons np by simp
  qed
qed

lemma drain_settled_settle_all:
  "drain q \<noteq> Pending \<Longrightarrow> drain (settle_all outcomes q) = drain q"
  by (induction outcomes arbitrary: q) (simp_all add: drain_settled_resume)

lemma drain_resume_rejects:
  assumes "awaiting q = Some k0" and "drain q = Pending"
  shows "drain (resume (Some e) q) = Rejected e"
proof (cases "delete_prop k0 (jobs q)")
  case Nil
  then show ?thesis using resume_last [OF assms(1) Nil, of "Some e"] assms(2) by simp
next
  case (Cons p rest)
  obtain k1 j1 where "p = (k1, j1)" by (cases p)
  then show ?thesis using resume_next [OF assms(1), of k1 j1 rest "Some e"] Cons assms(2) by simp
qed

lemma inherits_resume: "inherits_function (resume outcome q) = inherits_function q"
  by (cases "awaiting q"; cases outcome)
     (simp_all add: resume_def inherits_loop_head reject_def)

lemma inherits_settle_all: "inherits_function (settle_all outcomes q) = inherits_function q"
  by (induction outcomes arbitrary: q) (simp_all add: inherits_resume)

text \<open>
  Claim C4, as amended. When the body of the job the loop is running under \<open>kB\<close> rejects
  with \<open>e\<close>, the rejection is caught (it rejects the promise of the cycle if that is still
  pending) and the loop goes on: with nothing more appended and every body settling,
  whatever their outcomes, the job of every property under a key other than \<open>kB\<close> is
  called, in the order of the keys, until the object is empty; the callback is not
  called.
\<close>

theorem rejection_does_not_stop_loop:
  assumes "consistent q" and "awaiting q = Some kB"
    and "length outcomes = length (delete_prop kB (jobs q))"
    and "q' = settle_all (Some e # outcomes) q"
  shows "log q' = log q @ starts (delete_prop kB (jobs q))
       \<and> (\<forall>p \<in> set (jobs q). fst p \<noteq> kB \<longrightarrow>
            Started (fst p) (snd p) \<in> set (drop (length (log q)) (log q')))
       \<and> (drain q = Pending \<longrightarrow> drain q' = Rejected e)
       \<and> jobs q' = [] \<and> \<not> promise q'"
proof -
  have d: "distinct (map fst (jobs q))" using assms(1) by (simp add: consistent_def)
  have len: "length (Some e # outcomes) = Suc (length (delete_prop kB (jobs q)))"
    using assms(3) by simp
  have nr: "\<not> all_resolved (Some e # outcomes)" by (simp add: all_resolved_def)
  note dr = settle_all_drains [OF assms(2) d len]
  have l: "log q' = log q @ starts (delete_prop kB (jobs q))"
    using dr nr assms(4) by simp
  have m: "\<forall>p \<in> set (jobs q). fst p \<noteq> kB \<longrightarrow>
            Started (fst p) (snd p) \<in> set (drop (length (log q)) (log q'))"
    using l by (auto simp: starts_def delete_prop_def)
  have r: "drain q = Pending \<longrightarrow> drain q' = Rejected e"
  proof
    assume "drain q = Pending"
    then have "drain (resume (Some e) q) = Rejected e"
      using assms(2) by (simp add: drain_resume_rejects)
    then show "drain q' = Rejected e"
      using drain_settled_settle_all [of "resume (Some e) q" outcomes] assms(4) by simp
  qed
  show ?thesis using l m r dr assms(4) by simp
qed

theorem rejection_does_not_stop_loop_witness:
  "settle_all [Some TypeError, None]
     \<lparr>jobs = [(''b'', ''B''), (''c'', ''C'')], inherits_function = False, promise = True,
      awaiting = Some ''b'', drain = Pending, log = [Started ''b'' ''B'']\<rparr>
   = \<lparr>jobs = [], inherits_function = False, promise = False, awaiting = None,
      drain = Rejected TypeError, log = [Started ''b'' ''B'', Started ''c'' ''C'']\<rparr>"
proof -
  let ?q = "\<lparr>jobs = [(''b'', ''B''), (''c'', ''C'')], inherits_function = False, promise = True,
      awaiting = Some ''b'', drain = Pending, log = [Started ''b'' ''B'']\<rparr> :: string queue"
  have c: "consistent ?q" by (simp add: consistent_def)
  have a: "awaiting ?q = Some ''b''" by simp
  have len: "length [None :: js_error option] = length (delete_prop ''b'' (jobs ?q))"
    by (simp add: delete_prop_def)
  have "awaiting (settle_all [Some TypeError, None] ?q) = None"
    using settle_all_drains [of ?q "''b''" "[Some TypeError, None]"]
    by (simp add: delete_prop_def)
  moreover have "\<not> inherits_function (settle_all [Some TypeError, None] ?q)"
    by (simp only: inherits_settle_all) simp
  ultimately show ?thesis
    using rejection_does_not_stop_loop [OF c a len refl, of TypeError]
    by (cases "settle_all [Some TypeError, None] ?q") (simp add: starts_def delete_prop_def)
qed

text \<open>
  Claim C4 as stated fails for a job stored under the key of the failing job. \<^verbatim>\<open>B2\<close> is
  appended under \<^verbatim>\<open>b\<close> while \<^verbatim>\<open>B\<close> runs under \<^verbatim>\<open>b\<close>, so it is in the object when \<^verbatim>\<open>B\<close>
  rejects; line 34 then deletes it, and it is never called, while \<^verbatim>\<open>C\<close> is.
\<close>

theorem rejection_counterexample:
  "run [Append ''b'' ''B'', Append ''b'' ''B2'', Append ''c'' ''C''] new_queue
     = \<lparr>jobs = [(''b'', ''B2''), (''c'', ''C'')], inherits_function = False, promise = True,
        awaiting = Some ''b'', drain = Pending, log = [Started ''b'' ''B'']\<rparr>
   \<and> run [Append ''b'' ''B'', Append ''b'' ''B2'', Append ''c'' ''C'',
          Settle (Some TypeError), Settle None] new_queue
     = \<lparr>jobs = [], inherits_function = False, promise = False, awaiting = None,
        drain = Rejected TypeError, log = [Started ''b'' ''B'', Started ''c'' ''C'']\<rparr>"
  by (simp add: queue_defs)

subsection \<open>The completion callback\<close>

text \<open>
  Claim C5, as amended. A drain cycle starts with an \<^verbatim>\<open>appendJob\<close> that returns, on an
  idle queue, and ends when the loop returns, after any interleaving of further
  \<^verbatim>\<open>appendJob\<close> calls and settling bodies. At its end the object is empty and
  \<^verbatim>\<open>this.promise\<close> is undefined. The callback is called once, as the last thing of the
  cycle, when no body of the cycle rejected, and is not called at all when one did; so
  never more than once in a cycle.
\<close>

theorem callback_once_per_cycle:
  assumes "consistent q0" and "\<not> promise q0" and "k \<noteq> ''__proto__''"
    and "appendJob k j q0 = Inr q1"
    and "completes_cycle inputs q1"
    and "q' = run (Append k j # inputs) q0"
  shows "callbacks q' = callbacks q0 + (if some_rejection inputs then 0 else 1)
       \<and> callbacks q' \<le> callbacks q0 + 1
       \<and> jobs q' = [] \<and> \<not> promise q' \<and> awaiting q' = None
       \<and> (\<not> some_rejection inputs \<longrightarrow> (\<exists>l. log q' = l @ [Callback]))"
proof -
  have nt: "\<not> store_throws k q0"
    using assms(3,4) by (auto simp: appendJob_def set_prop_def split: if_splits)
  have "k \<in> fst ` set (put_own k j (jobs q0))" by (simp add: keys_put_own)
  then have ne: "put_own k j (jobs q0) \<noteq> []" by auto
  then obtain k1 j1 rest where sp: "put_own k j (jobs q0) = (k1, j1) # rest"
    by (cases "put_own k j (jobs q0)") auto
  have q: "q1 = q0\<lparr>jobs := (k1, j1) # rest, promise := True, awaiting := Some k1,
      drain := Pending, log := log q0 @ [Started k1 j1]\<rparr>"
    using assms(2,3,4) nt sp by (auto simp: appendJob_def set_prop_stores loop_head_def)
  have c: "consistent q1" using assms(1,4) by (rule appendJob_consistent)
  have a: "awaiting q1 \<noteq> None" using q by simp
  have cb: "callbacks q1 = callbacks q0" and dr: "drain q1 = Pending"
    using q by (simp_all add: callbacks_def)
  have r: "q' = run inputs q1" using assms(4,6) by simp
  show ?thesis
    using cycle_callbacks [OF c a assms(5)] cb dr r by auto
qed

theorem callback_once_per_cycle_witness:
  "callbacks (run [Append ''a'' ''A'', Append ''b'' ''B'', Settle None, Append ''a'' ''A2'',
                   Settle None, Settle None] new_queue) = 1
   \<and> callbacks (run [Append ''a'' ''A'', Append ''b'' ''B'', Settle None,
                   Settle (Some TypeError)] new_queue) = 0"
proof -
  let ?new = "new_queue :: string queue"
  let ?q1 = "\<lparr>jobs = [(''a'', ''A'')], inherits_function = False, promise = True,
              awaiting = Some ''a'', drain = Pending, log = [Started ''a'' ''A'']\<rparr> :: string queue"
  have c: "consistent ?new" and p: "\<not> promise ?new" and z: "callbacks ?new = 0"
    by (simp_all add: consistent_def new_queue_def callbacks_def)
  have n: "''a'' \<noteq> ''__proto__''" by simp
  have a1: "appendJob ''a'' ''A'' ?new = Inr ?q1"
    by (simp add: queue_defs)
  have c1: "completes_cycle [Append ''b'' ''B'', Settle None, Append ''a'' ''A2'',
                   Settle None, Settle None] ?q1"
    by (simp add: queue_defs)
  have c2: "completes_cycle [Append ''b'' ''B'', Settle None, Settle (Some TypeError)] ?q1"
    by (simp add: queue_defs)
  have s1: "\<not> some_rejection [Append ''b'' ''B'', Settle None, Append ''a'' ''A2'',
                   Settle None, Settle None :: string input]"
    and s2: "some_rejection [Append ''b'' ''B'', Settle None, Settle (Some TypeError) :: string input]"
    by (simp_all add: some_rejection_def)
  show ?thesis
    using callback_once_per_cycle [OF c p n a1 c1 refl]
      callback_once_per_cycle [OF c p n a1 c2 refl] z s1 s2
    by simp
qed

text \<open>
  Claim C5 as stated fails in a cycle in which a body rejected: the object empties and the
  loop returns, but \<^verbatim>\<open>resolve()\<close> on the rejected promise does nothing and the callback is
  not called.
\<close>

theorem callback_counterexample:
  "run [Append ''a'' ''A'', Settle (Some TypeError)] new_queue
     = \<lparr>jobs = [], inherits_function = False, promise = False, awaiting = None,
        drain = Rejected TypeError, log = [Started ''a'' ''A'']\<rparr>"
  by (simp add: queue_defs)

end
